theory Spec2Isabelle
  imports Main "HOL-Library.AList"
begin

section \<open>BIDS input resolution of \<open>banana/analysis/base.py\<close>\<close>

text \<open>
  The module defines the class \<open>BidsMixin\<close>: its constructor \<open>__init__\<close> and the class
  method \<open>get_bids_inputs\<close>. Both work on Python objects that are shared by reference
  (the default inputs declared on an analysis class) and that are copied with
  \<open>copy.copy\<close> before an attribute is assigned. The embedding therefore keeps an explicit
  store: an object is a record of the attributes the code reads or writes, a reference is
  an index into the store, \<open>copy\<close> appends a new object to the store, and an attribute
  assignment overwrites one cell of it.
\<close>

subsection \<open>Objects, references and the store\<close>

type_synonym addr = nat

text \<open>A repository (dataset) handle is only stored, never inspected.\<close>

type_synonym repo = nat

text \<open>
  Modelled from the spec: the classes \<open>BidsInputs\<close> and \<open>BidsAssocInputs\<close> of
  \<open>banana.bids_\<close> and the filters a caller passes as explicit inputs are not part of the
  sources at hand. Following section 3 of the specification an input object carries a
  name, an optional task filter, a repository reference and, when it is an associated
  input, a reference to its primary input and a \<open>prefixed_primary_name\<close>; each is a plain
  attribute (the task of an associated input, which the class forwards to its primary
  input, is taken up in a subsection of its own). \<open>spec_name\<close> is the attribute the
  constructor reads from the items of an explicit input list. \<open>is_assoc\<close> is the outcome of
  \<open>isinstance(inpt, BidsAssocInputs)\<close>; \<open>repository\<close> is the attribute \<open>_repository\<close>.
\<close>

record input_obj =
  spec_name :: string
  name :: string
  task :: "string option"
  repository :: "repo option"
  is_assoc :: bool
  primary :: addr
  prefixed_primary_name :: string

type_synonym heap = "input_obj list"

text \<open>
  A Python \<open>dict\<close> with string keys and object values: an association list in insertion
  order. \<open>d[k] = v\<close> is \<open>AList.update k v d\<close>, which overwrites the value of a key in
  place and appends a new key at the end, as Python does; \<open>map_of\<close> is the lookup.
\<close>

type_synonym dict = "(string \<times> addr) list"

text \<open>
  A Python reference always points to an object. An index outside the store has no
  counterpart in the program; the embedding reports it as \<open>InvalidRef\<close> instead of
  reading an unspecified value.
\<close>

datatype error = InvalidRef

definition deref :: "heap \<Rightarrow> addr \<Rightarrow> error + input_obj" where
  "deref h a = (if a < length h then Inr (h ! a) else Inl InvalidRef)"

text \<open>\<open>copy(inpt)\<close>: a new object with the same attribute values (a shallow copy).\<close>

definition copy :: "heap \<Rightarrow> addr \<Rightarrow> error + heap \<times> addr" where
  "copy h a = (case deref h a of Inl e \<Rightarrow> Inl e | Inr ob \<Rightarrow> Inr (h @ [ob], length h))"

subsection \<open>Analysis classes\<close>

text \<open>
  A sub-analysis specification (an element of \<open>cls.subcomp_specs()\<close>):
  \<open>default_bids_inputs\<close> is the attribute of that name of \<open>spec.analysis_class\<close>, \<open>None\<close>
  when \<open>hasattr\<close> is false; \<open>apply_prefix\<close> is the name-prefixing method of the
  specification, defined by the framework and taken here as a parameter.
\<close>

record subcomp_spec =
  default_bids_inputs :: "addr list option"
  apply_prefix :: "string \<Rightarrow> string"

text \<open>
  The class on which \<open>get_bids_inputs\<close> is called: either a subclass of \<open>MultiAnalysis\<close>
  with its sub-analysis specifications, or any other class with its
  \<open>default_bids_inputs\<close> attribute (\<open>None\<close> when the attribute is absent and the lookup
  raises \<open>AttributeError\<close>).
\<close>

datatype analysis_cls =
  Analysis "addr list option"
| MultiAnalysis "subcomp_spec list"

subsection \<open>\<open>get_bids_inputs\<close>\<close>

text \<open>
  The inner loop of the composite branch, for one sub-analysis specification with
  prefixing function \<open>pfx\<close>: an associated input is copied and the copy's
  \<open>prefixed_primary_name\<close> is assigned; the input (or its copy) is stored under the
  prefixed name.
\<close>

fun flatten_spec :: "(string \<Rightarrow> string) \<Rightarrow> addr list \<Rightarrow> heap \<Rightarrow> dict \<Rightarrow> error + heap \<times> dict" where
  "flatten_spec pfx [] h d = Inr (h, d)"
| "flatten_spec pfx (a # as) h d =
    (case deref h a of
       Inl e \<Rightarrow> Inl e
     | Inr ob \<Rightarrow>
        if is_assoc ob then
          (case copy h a of
             Inl e \<Rightarrow> Inl e
           | Inr (h1, c) \<Rightarrow>
              (case deref h1 (primary (h1 ! c)) of
                 Inl e \<Rightarrow> Inl e
               | Inr p \<Rightarrow>
                  let h2 = h1[c := (h1 ! c)\<lparr>prefixed_primary_name := pfx (name p)\<rparr>]
                  in flatten_spec pfx as h2 (AList.update (pfx (name (h2 ! c))) c d)))
        else flatten_spec pfx as h (AList.update (pfx (name ob)) a d))"

text \<open>The outer loop over \<open>cls.subcomp_specs()\<close>, with the \<open>hasattr\<close> test.\<close>

fun flatten_specs :: "subcomp_spec list \<Rightarrow> heap \<Rightarrow> dict \<Rightarrow> error + heap \<times> dict" where
  "flatten_specs [] h d = Inr (h, d)"
| "flatten_specs (s # ss) h d =
    (case default_bids_inputs s of
       None \<Rightarrow> flatten_specs ss h d
     | Some as \<Rightarrow>
        (case flatten_spec (apply_prefix s) as h d of
           Inl e \<Rightarrow> Inl e
         | Inr (h1, d1) \<Rightarrow> flatten_specs ss h1 d1))"

text \<open>The comprehension \<open>{i.name: i for i in cls.default_bids_inputs}\<close>.\<close>

fun name_dict :: "addr list \<Rightarrow> heap \<Rightarrow> dict \<Rightarrow> error + dict" where
  "name_dict [] h d = Inr d"
| "name_dict (a # as) h d =
    (case deref h a of
       Inl e \<Rightarrow> Inl e
     | Inr ob \<Rightarrow> name_dict as h (AList.update (name ob) a d))"

text \<open>The first statement of \<open>get_bids_inputs\<close>: the mapping \<open>default_bids_inputs\<close>.\<close>

definition default_inputs :: "heap \<Rightarrow> analysis_cls \<Rightarrow> error + heap \<times> dict" where
  "default_inputs h cls =
    (case cls of
       MultiAnalysis specs \<Rightarrow> flatten_specs specs h []
     | Analysis None \<Rightarrow> Inr (h, [])
     | Analysis (Some as) \<Rightarrow>
        (case name_dict as h [] of Inl e \<Rightarrow> Inl e | Inr d \<Rightarrow> Inr (h, d)))"

text \<open>
  The second loop, over \<open>default_bids_inputs.items()\<close>: every input is copied, the copy
  receives the task when it has none and one is given, and the repository.
\<close>

fun bind_inputs :: "string option \<Rightarrow> repo option \<Rightarrow> dict \<Rightarrow> heap \<Rightarrow> dict \<Rightarrow> error + heap \<times> dict" where
  "bind_inputs t r [] h inputs = Inr (h, inputs)"
| "bind_inputs t r ((nm, a) # rest) h inputs =
    (case copy h a of
       Inl e \<Rightarrow> Inl e
     | Inr (h1, c) \<Rightarrow>
        let h2 = (if task (h1 ! c) = None \<and> t \<noteq> None
                  then h1[c := (h1 ! c)\<lparr>task := t\<rparr>] else h1);
            h3 = h2[c := (h2 ! c)\<lparr>repository := r\<rparr>]
        in bind_inputs t r rest h3 (AList.update nm c inputs))"

definition get_bids_inputs ::
  "heap \<Rightarrow> analysis_cls \<Rightarrow> string option \<Rightarrow> repo option \<Rightarrow> error + heap \<times> dict" where
  "get_bids_inputs h cls t r =
    (case default_inputs h cls of
       Inl e \<Rightarrow> Inl e
     | Inr (h1, d) \<Rightarrow> bind_inputs t r d h1 [])"

subsection \<open>The constructor\<close>

text \<open>The \<open>inputs\<close> argument: \<open>None\<close>, a \<open>dict\<close>, or any other iterable of items.\<close>

datatype inputs_arg = NoInputs | DictInputs dict | ListInputs "addr list"

text \<open>The comprehension \<open>{i.spec_name: i for i in inputs}\<close>.\<close>

fun spec_name_dict :: "addr list \<Rightarrow> heap \<Rightarrow> dict \<Rightarrow> error + dict" where
  "spec_name_dict [] h d = Inr d"
| "spec_name_dict (a # as) h d =
    (case deref h a of
       Inl e \<Rightarrow> Inl e
     | Inr ob \<Rightarrow> spec_name_dict as h (AList.update (spec_name ob) a d))"

definition normalise_inputs :: "heap \<Rightarrow> inputs_arg \<Rightarrow> error + dict" where
  "normalise_inputs h inputs =
    (case inputs of
       NoInputs \<Rightarrow> Inr []
     | DictInputs d \<Rightarrow> Inr d
     | ListInputs items \<Rightarrow> spec_name_dict items h [])"

text \<open>\<open>d.update(other)\<close>: every item of \<open>other\<close> is assigned, in the order of \<open>other\<close>.\<close>

definition dict_update :: "dict \<Rightarrow> dict \<Rightarrow> dict" where
  "dict_update d other = fold (\<lambda>(k, v). AList.update k v) other d"

text \<open>
  The \<open>dataset\<close> argument: its attribute \<open>type\<close> and the identity of the dataset
  (the handle a default input would be bound to).
\<close>

record dataset =
  dataset_type :: string
  dataset_handle :: repo

text \<open>
  What \<open>__init__\<close> hands on: the store, the mapping passed as \<open>inputs\<close> to the
  constructor of the base class, and the attribute \<open>_bids_task\<close>.
\<close>

record init_result =
  heap_of :: heap
  base_inputs :: dict
  bids_task :: "string option"

definition BidsMixin_init ::
  "heap \<Rightarrow> analysis_cls \<Rightarrow> dataset \<Rightarrow> inputs_arg \<Rightarrow> string option \<Rightarrow> error + init_result" where
  "BidsMixin_init h cls ds inputs task_arg =
    (case normalise_inputs h inputs of
       Inl e \<Rightarrow> Inl e
     | Inr explicit \<Rightarrow>
        if dataset_type ds = ''bids'' then
          (case get_bids_inputs h cls task_arg None of
             Inl e \<Rightarrow> Inl e
           | Inr (h1, bids_inputs) \<Rightarrow>
              Inr \<lparr>heap_of = h1, base_inputs = dict_update bids_inputs explicit,
                   bids_task = task_arg\<rparr>)
        else Inr \<lparr>heap_of = h, base_inputs = explicit, bids_task = task_arg\<rparr>)"

subsection \<open>The task of an associated input\<close>

text \<open>
  The definitions above follow the data model of the specification, in which the task
  filter is an attribute of every input. The class \<open>BidsAssocInputs\<close> of \<open>banana.bids_\<close>
  has no task filter of its own: its \<open>task\<close> is a property, and reading \<open>inpt.task\<close>
  reads \<open>inpt.primary.task\<close> while assigning \<open>inpt.task\<close> assigns \<open>inpt.primary.task\<close>.
  The primary input is a \<open>BidsInputs\<close>, whose task filter is stored in the object.
  \<open>get_task\<close> and \<open>set_task\<close> are the reading and the assignment of \<open>inpt.task\<close> with
  this property.
\<close>

definition get_task :: "heap \<Rightarrow> addr \<Rightarrow> error + string option" where
  "get_task h a =
    (case deref h a of
       Inl e \<Rightarrow> Inl e
     | Inr ob \<Rightarrow>
        if is_assoc ob then
          (case deref h (primary ob) of Inl e \<Rightarrow> Inl e | Inr p \<Rightarrow> Inr (task p))
        else Inr (task ob))"

definition set_task :: "heap \<Rightarrow> addr \<Rightarrow> string option \<Rightarrow> error + heap" where
  "set_task h a t =
    (case deref h a of
       Inl e \<Rightarrow> Inl e
     | Inr ob \<Rightarrow>
        if is_assoc ob then
          (case deref h (primary ob) of
             Inl e \<Rightarrow> Inl e
           | Inr p \<Rightarrow> Inr (h[primary ob := p\<lparr>task := t\<rparr>]))
        else Inr (h[a := ob\<lparr>task := t\<rparr>]))"

text \<open>
  The second loop of \<open>get_bids_inputs\<close> and the method itself, statement by statement
  as before, with \<open>inpt.task\<close> read and assigned through the property. \<open>copy(inpt)\<close> is
  shallow: the copy of an associated input refers to the same primary input as the
  original.
\<close>

fun bind_inputs_property ::
  "string option \<Rightarrow> repo option \<Rightarrow> dict \<Rightarrow> heap \<Rightarrow> dict \<Rightarrow> error + heap \<times> dict" where
  "bind_inputs_property t r [] h inputs = Inr (h, inputs)"
| "bind_inputs_property t r ((nm, a) # rest) h inputs =
    (case copy h a of
       Inl e \<Rightarrow> Inl e
     | Inr (h1, c) \<Rightarrow>
        (case get_task h1 c of
           Inl e \<Rightarrow> Inl e
         | Inr tk \<Rightarrow>
            (case (if tk = None \<and> t \<noteq> None then set_task h1 c t else Inr h1) of
               Inl e \<Rightarrow> Inl e
             | Inr h2 \<Rightarrow>
                let h3 = h2[c := (h2 ! c)\<lparr>repository := r\<rparr>]
                in bind_inputs_property t r rest h3 (AList.update nm c inputs))))"

definition get_bids_inputs_property ::
  "heap \<Rightarrow> analysis_cls \<Rightarrow> string option \<Rightarrow> repo option \<Rightarrow> error + heap \<times> dict" where
  "get_bids_inputs_property h cls t r =
    (case default_inputs h cls of
       Inl e \<Rightarrow> Inl e
     | Inr (h1, d) \<Rightarrow> bind_inputs_property t r d h1 [])"

subsection \<open>What the resolver is expected to compute\<close>

text \<open>
  The per-copy binding step in the words of the specification: the copy's task filter is
  set to the supplied task when it is unset and a task is supplied, and its repository
  reference is bound to the supplied repository.
\<close>

definition bound_copy :: "string option \<Rightarrow> repo option \<Rightarrow> input_obj \<Rightarrow> input_obj" where
  "bound_copy t r ob =
    ob\<lparr>task := (if task ob = None \<and> t \<noteq> None then t else task ob), repository := r\<rparr>"

text \<open>
  The value a composite class stores for a declared input: an associated input with its
  \<open>prefixed_primary_name\<close> recomputed from the primary input's bare name, any other
  input as it is.
\<close>

definition prefixed :: "(string \<Rightarrow> string) \<Rightarrow> heap \<Rightarrow> addr \<Rightarrow> input_obj" where
  "prefixed pfx h a =
    (if is_assoc (h ! a)
     then (h ! a)\<lparr>prefixed_primary_name := pfx (name (h ! primary (h ! a)))\<rparr>
     else h ! a)"

definition declared_inputs ::
  "(string \<Rightarrow> string) \<Rightarrow> heap \<Rightarrow> addr list \<Rightarrow> (string \<times> input_obj) list" where
  "declared_inputs pfx h as = map (\<lambda>a. (pfx (name (h ! a)), prefixed pfx h a)) as"

definition declared_spec :: "heap \<Rightarrow> subcomp_spec \<Rightarrow> (string \<times> input_obj) list" where
  "declared_spec h s =
    (case default_bids_inputs s of
       None \<Rightarrow> []
     | Some as \<Rightarrow> declared_inputs (apply_prefix s) h as)"

text \<open>
  The default inputs a class declares, in declaration order, each with the key it is
  stored under: the bare name for a simple class, the prefixed name for a composite one.
\<close>

definition declared :: "heap \<Rightarrow> analysis_cls \<Rightarrow> (string \<times> input_obj) list" where
  "declared h cls =
    (case cls of
       Analysis None \<Rightarrow> []
     | Analysis (Some as) \<Rightarrow> map (\<lambda>a. (name (h ! a), h ! a)) as
     | MultiAnalysis specs \<Rightarrow> concat (map (declared_spec h) specs))"

text \<open>
  Every reference held by a class points into the store, and so does the primary input
  of every associated input a sub-analysis declares. In Python this cannot fail.
\<close>

definition wf_ref :: "heap \<Rightarrow> addr \<Rightarrow> bool" where
  "wf_ref h a = (a < length h \<and> (is_assoc (h ! a) \<longrightarrow> primary (h ! a) < length h))"

definition wf_spec :: "heap \<Rightarrow> subcomp_spec \<Rightarrow> bool" where
  "wf_spec h s =
    (case default_bids_inputs s of None \<Rightarrow> True | Some as \<Rightarrow> list_all (wf_ref h) as)"

definition wf_cls :: "heap \<Rightarrow> analysis_cls \<Rightarrow> bool" where
  "wf_cls h cls =
    (case cls of
       Analysis None \<Rightarrow> True
     | Analysis (Some as) \<Rightarrow> list_all (\<lambda>a. a < length h) as
     | MultiAnalysis specs \<Rightarrow> list_all (wf_spec h) specs)"

text \<open>The objects a mapping refers to, and the mappings whose references are in the store.\<close>

definition objects :: "heap \<Rightarrow> dict \<Rightarrow> (string \<times> input_obj) list" where
  "objects h d = map (\<lambda>(k, a). (k, h ! a)) d"

definition valid :: "heap \<Rightarrow> dict \<Rightarrow> bool" where
  "valid h d = list_all (\<lambda>(k, a). a < length h) d"

subsection \<open>Example objects\<close>

text \<open>
  A few input objects for concrete runs: a magnitude image without a task filter, a
  functional run with the task filter \<open>nback\<close>, an associated input (gradient table)
  whose primary input is the object at reference 0, and an explicit filter a caller
  supplies for the data specification \<open>mag\<close>.
\<close>

definition ex_mag :: input_obj where
  "ex_mag = \<lparr>spec_name = ''mag'', name = ''mag'', task = None, repository = None,
     is_assoc = False, primary = 0, prefixed_primary_name = []\<rparr>"

definition ex_bold :: input_obj where
  "ex_bold = \<lparr>spec_name = ''bold'', name = ''bold'', task = Some ''nback'',
     repository = None, is_assoc = False, primary = 0, prefixed_primary_name = []\<rparr>"

definition ex_grads :: input_obj where
  "ex_grads = \<lparr>spec_name = ''grads'', name = ''grads'', task = None, repository = None,
     is_assoc = True, primary = 0, prefixed_primary_name = ''mag''\<rparr>"

definition ex_filter :: input_obj where
  "ex_filter = \<lparr>spec_name = ''mag'', name = ''user_mag'', task = None,
     repository = Some 7, is_assoc = False, primary = 0, prefixed_primary_name = []\<rparr>"

definition sub_a :: subcomp_spec where
  "sub_a = \<lparr>default_bids_inputs = Some [0, 1], apply_prefix = (\<lambda>n. ''a_'' @ n)\<rparr>"

definition sub_b :: subcomp_spec where
  "sub_b = \<lparr>default_bids_inputs = Some [0], apply_prefix = (\<lambda>n. ''b_'' @ n)\<rparr>"

section \<open>Properties\<close>

subsection \<open>The store and mappings\<close>

lemma copy_valid: "a < length h \<Longrightarrow> copy h a = Inr (h @ [h ! a], length h)"
  by (simp add: copy_def deref_def)

lemma update_fresh: "k \<notin> fst ` set d \<Longrightarrow> AList.update k v d = d @ [(k, v)]"
  by (induction d) auto

lemma map_of_dict_update: "map_of (dict_update d kvs) = map_of d ++ map_of (rev kvs)"
proof (induction kvs arbitrary: d)
  case Nil
  show ?case by (simp add: dict_update_def)
next
  case (Cons kv kvs)
  obtain k v where kv: "kv = (k, v)" by (cases kv)
  have "dict_update d (kv # kvs) = dict_update (AList.update k v d) kvs"
    by (simp add: dict_update_def kv)
  then show ?case
    using Cons.IH [of "AList.update k v d"]
    by (simp add: kv update_conv' map_add_def fun_eq_iff split: option.splits)
qed

lemma keys_dict_update: "fst ` set (dict_update d kvs) = fst ` set d \<union> fst ` set kvs"
proof (induction kvs arbitrary: d)
  case Nil
  show ?case by (simp add: dict_update_def)
next
  case (Cons kv kvs)
  obtain k v where kv: "kv = (k, v)" by (cases kv)
  have "dict_update d (kv # kvs) = dict_update (AList.update k v d) kvs"
    by (simp add: dict_update_def kv)
  then show ?case
    using Cons.IH [of "AList.update k v d"] by (auto simp: kv dom_update)
qed

lemma distinct_dict_update: "distinct (map fst d) \<Longrightarrow> distinct (map fst (dict_update d kvs))"
proof (induction kvs arbitrary: d)
  case Nil
  then show ?case by (simp add: dict_update_def)
next
  case (Cons kv kvs)
  obtain k v where kv: "kv = (k, v)" by (cases kv)
  have "dict_update d (kv # kvs) = dict_update (AList.update k v d) kvs"
    by (simp add: dict_update_def kv)
  then show ?case
    using Cons.IH [of "AList.update k v d"] Cons.prems by (simp add: distinct_update)
qed

lemma set_update_subset: "set (AList.update k v d) \<subseteq> insert (k, v) (set d)"
  by (induction d) auto


lemma valid_update: "valid h d \<Longrightarrow> a < length h \<Longrightarrow> valid h (AList.update k a d)"
  by (induction d) (auto simp: valid_def)

lemma valid_append: "valid h d \<Longrightarrow> valid (h @ ext) d"
  by (induction d) (auto simp: valid_def)

lemma objects_append: "valid h d \<Longrightarrow> objects (h @ ext) d = objects h d"
  by (induction d) (auto simp: valid_def objects_def nth_append)

lemma map_of_objects: "map_of (objects h d) k = map_option ((!) h) (map_of d k)"
  by (induction d) (auto simp: objects_def)

lemma map_of_objects_update:
  "map_of (objects h (AList.update k a d)) = (map_of (objects h d))(k \<mapsto> h ! a)"
  by (rule ext) (simp add: map_of_objects update_conv')

subsection \<open>The inner loop of the composite branch\<close>

lemma update_new_cell: "(h0 @ ext @ [x])[length h0 + length ext := y] = h0 @ ext @ [y]"
  by (simp add: list_update_append)

lemma nth_new_cell: "(h0 @ ext @ [x]) ! (length h0 + length ext) = x"
  by (simp add: nth_append)

lemma flatten_spec_inv:
  assumes "list_all (wf_ref h0) as" and "valid (h0 @ ext) d"
  shows "\<exists>ext' d1. flatten_spec pfx as (h0 @ ext) d = Inr (h0 @ ext @ ext', d1)
           \<and> valid (h0 @ ext @ ext') d1
           \<and> map_of (objects (h0 @ ext @ ext') d1) =
               map_of (objects (h0 @ ext) d) ++ map_of (rev (declared_inputs pfx h0 as))
           \<and> fst ` set d1 = fst ` set d \<union> fst ` set (declared_inputs pfx h0 as)
           \<and> (distinct (map fst d) \<longrightarrow> distinct (map fst d1))"
  using assms
proof (induction as arbitrary: ext d)
  case Nil
  have "flatten_spec pfx [] (h0 @ ext) d = Inr (h0 @ ext @ [], d)" by simp
  moreover have "valid (h0 @ ext @ []) d" using Nil by simp
  ultimately show ?case by (intro exI [of _ "[]"] exI [of _ d]) (simp add: declared_inputs_def)
next
  case (Cons a as)
  let ?h = "h0 @ ext"
  let ?ob = "h0 ! a"
  from Cons.prems have w: "wf_ref h0 a" and rest: "list_all (wf_ref h0) as"
    by simp_all
  from w have a: "a < length h0" and prim: "is_assoc ?ob \<Longrightarrow> primary ?ob < length h0"
    by (simp_all add: wf_ref_def)
  have ha: "?h ! a = ?ob" using a by (simp add: nth_append)
  have da: "deref ?h a = Inr ?ob" using a by (simp add: deref_def nth_append)
  show ?case
  proof (cases "is_assoc ?ob")
    case False
    let ?d = "AList.update (pfx (name ?ob)) a d"
    have step: "flatten_spec pfx (a # as) ?h d = flatten_spec pfx as ?h ?d"
      using False da by simp
    have v: "valid ?h ?d" using Cons.prems(2) a by (simp add: valid_update)
    from Cons.IH [OF rest v] obtain ext' d1 where
      r: "flatten_spec pfx as ?h ?d = Inr (h0 @ ext @ ext', d1)"
      and v1: "valid (h0 @ ext @ ext') d1"
      and m: "map_of (objects (h0 @ ext @ ext') d1) =
               map_of (objects ?h ?d) ++ map_of (rev (declared_inputs pfx h0 as))"
      and k: "fst ` set d1 = fst ` set ?d \<union> fst ` set (declared_inputs pfx h0 as)"
      and di: "distinct (map fst ?d) \<longrightarrow> distinct (map fst d1)"
      by blast
    have p: "prefixed pfx h0 a = ?ob" using False by (simp add: prefixed_def)
    have m': "map_of (objects (h0 @ ext @ ext') d1) =
               map_of (objects ?h d) ++ map_of (rev (declared_inputs pfx h0 (a # as)))"
      unfolding m by (simp add: map_of_objects_update ha declared_inputs_def p)
    have k': "fst ` set d1 = fst ` set d \<union> fst ` set (declared_inputs pfx h0 (a # as))"
      unfolding k by (auto simp: dom_update declared_inputs_def)
    have di': "distinct (map fst d) \<longrightarrow> distinct (map fst d1)"
      using di by (simp add: distinct_update)
    show ?thesis
      using r v1 m' k' di' unfolding step by blast
  next
    case True
    let ?c = "length ?h"
    let ?new = "?ob\<lparr>prefixed_primary_name := pfx (name (h0 ! primary ?ob))\<rparr>"
    let ?d = "AList.update (pfx (name ?ob)) ?c d"
    have cp: "copy ?h a = Inr (?h @ [?ob], ?c)"
      using a ha copy_valid [of a ?h] by simp
    have dp: "deref (?h @ [?ob]) (primary ?ob) = Inr (h0 ! primary ?ob)"
      using prim [OF True] by (simp add: deref_def nth_append)
    have step: "flatten_spec pfx (a # as) ?h d = flatten_spec pfx as (h0 @ (ext @ [?new])) ?d"
      using True da cp dp by (simp add: Let_def update_new_cell nth_new_cell)
    have v: "valid (h0 @ (ext @ [?new])) ?d"
      using valid_update [OF valid_append [OF Cons.prems(2), of "[?new]"], of ?c] by simp
    from Cons.IH [OF rest v] obtain ext' d1 where
      r: "flatten_spec pfx as (h0 @ (ext @ [?new])) ?d = Inr (h0 @ (ext @ [?new]) @ ext', d1)"
      and v1: "valid (h0 @ (ext @ [?new]) @ ext') d1"
      and m: "map_of (objects (h0 @ (ext @ [?new]) @ ext') d1) =
               map_of (objects (h0 @ (ext @ [?new])) ?d) ++ map_of (rev (declared_inputs pfx h0 as))"
      and k: "fst ` set d1 = fst ` set ?d \<union> fst ` set (declared_inputs pfx h0 as)"
      and di: "distinct (map fst ?d) \<longrightarrow> distinct (map fst d1)"
      by blast
    have p: "prefixed pfx h0 a = ?new" using True by (simp add: prefixed_def)
    have o: "objects (h0 @ (ext @ [?new])) d = objects ?h d"
      using objects_append [OF Cons.prems(2), of "[?new]"] by simp
    have n: "(h0 @ (ext @ [?new])) ! ?c = ?new"
      by (metis append.assoc nth_append_length)
    have m': "map_of (objects (h0 @ ext @ ([?new] @ ext')) d1) =
               map_of (objects ?h d) ++ map_of (rev (declared_inputs pfx h0 (a # as)))"
      using m by (simp add: map_of_objects_update o n declared_inputs_def p)
    have k': "fst ` set d1 = fst ` set d \<union> fst ` set (declared_inputs pfx h0 (a # as))"
      unfolding k by (auto simp: dom_update declared_inputs_def)
    have di': "distinct (map fst d) \<longrightarrow> distinct (map fst d1)"
      using di by (simp add: distinct_update)
    have r': "flatten_spec pfx (a # as) ?h d = Inr (h0 @ ext @ ([?new] @ ext'), d1)"
      unfolding step using r by simp
    have v1': "valid (h0 @ ext @ ([?new] @ ext')) d1" using v1 by simp
    show ?thesis
      using r' v1' m' k' di' by blast
  qed
qed


lemma flatten_spec_extends:
  assumes "list_all (wf_ref h0) as" and "valid (h0 @ ext) d"
    and "flatten_spec pfx as (h0 @ ext) d = Inr (h1, d1)"
  shows "\<exists>ext'. h1 = h0 @ ext @ ext'"
  using flatten_spec_inv [OF assms(1,2), of pfx] assms(3) by auto

lemma flatten_spec_Cons:
  assumes "wf_ref h0 a"
  shows "flatten_spec pfx (a # as) (h0 @ ext) d =
    (if is_assoc (h0 ! a)
     then flatten_spec pfx as (h0 @ ext @ [prefixed pfx h0 a])
            (AList.update (pfx (name (h0 ! a))) (length h0 + length ext) d)
     else flatten_spec pfx as (h0 @ ext) (AList.update (pfx (name (h0 ! a))) a d))"
proof -
  from assms have a: "a < length h0"
    and prim: "is_assoc (h0 ! a) \<Longrightarrow> primary (h0 ! a) < length h0"
    by (simp_all add: wf_ref_def)
  have da: "deref (h0 @ ext) a = Inr (h0 ! a)" using a by (simp add: deref_def nth_append)
  show ?thesis
  proof (cases "is_assoc (h0 ! a)")
    case False
    then show ?thesis using da by simp
  next
    case True
    have cp: "copy (h0 @ ext) a = Inr (h0 @ ext @ [h0 ! a], length h0 + length ext)"
      using a copy_valid [of a "h0 @ ext"] by (simp add: nth_append)
    have dp: "deref (h0 @ ext @ [h0 ! a]) (primary (h0 ! a)) = Inr (h0 ! primary (h0 ! a))"
      using prim [OF True] by (simp add: deref_def nth_append)
    show ?thesis
      using True da cp dp by (simp add: Let_def update_new_cell nth_new_cell prefixed_def)
  qed
qed

lemma flatten_spec_origin:
  assumes "list_all (wf_ref h0) as" and "valid (h0 @ ext) d"
    and "flatten_spec pfx as (h0 @ ext) d = Inr (h1, d1)" and "(k, b) \<in> set d1"
  shows "(k, b) \<in> set d \<or>
    (\<exists>a\<in>set as. k = pfx (name (h0 ! a)) \<and>
       (if is_assoc (h0 ! a)
        then length (h0 @ ext) \<le> b \<and> b < length h1 \<and> h1 ! b = prefixed pfx h0 a
        else b = a))"
  using assms
proof (induction as arbitrary: ext d)
  case Nil
  then show ?case by simp
next
  case (Cons a as)
  from Cons.prems(1) have w: "wf_ref h0 a" and rest: "list_all (wf_ref h0) as"
    by simp_all
  from w have a: "a < length h0" by (simp add: wf_ref_def)
  let ?k = "pfx (name (h0 ! a))"
  show ?case
  proof (cases "is_assoc (h0 ! a)")
    case False
    let ?d = "AList.update ?k a d"
    have step: "flatten_spec pfx (a # as) (h0 @ ext) d = flatten_spec pfx as (h0 @ ext) ?d"
      using False by (simp only: flatten_spec_Cons [OF w] if_False)
    have r: "flatten_spec pfx as (h0 @ ext) ?d = Inr (h1, d1)"
      using Cons.prems(3) unfolding step .
    have v: "valid (h0 @ ext) ?d" using Cons.prems(2) a by (simp add: valid_update)
    from Cons.IH [OF rest v r Cons.prems(4)]
    show ?thesis
    proof
      assume "(k, b) \<in> set ?d"
      then have "(k, b) \<in> set d \<or> (k, b) = (?k, a)"
        using set_update_subset [of ?k a d] by blast
      then show ?thesis using False by auto
    next
      assume "\<exists>a\<in>set as. k = pfx (name (h0 ! a)) \<and>
       (if is_assoc (h0 ! a)
        then length (h0 @ ext) \<le> b \<and> b < length h1 \<and> h1 ! b = prefixed pfx h0 a
        else b = a)"
      then show ?thesis by auto
    qed
  next
    case True
    let ?c = "length h0 + length ext"
    let ?new = "prefixed pfx h0 a"
    let ?d = "AList.update ?k ?c d"
    have step: "flatten_spec pfx (a # as) (h0 @ ext) d =
        flatten_spec pfx as (h0 @ (ext @ [?new])) ?d"
      using True by (simp only: flatten_spec_Cons [OF w] if_True append_assoc)
    have r: "flatten_spec pfx as (h0 @ (ext @ [?new])) ?d = Inr (h1, d1)"
      using Cons.prems(3) unfolding step .
    have v: "valid (h0 @ (ext @ [?new])) ?d"
      using valid_update [OF valid_append [OF Cons.prems(2), of "[?new]"], of ?c] by simp
    from flatten_spec_extends [OF rest v r] obtain ext' where
      h1: "h1 = h0 @ ext @ [?new] @ ext'" by auto
    from Cons.IH [OF rest v r Cons.prems(4)]
    show ?thesis
    proof
      assume "(k, b) \<in> set ?d"
      then have "(k, b) \<in> set d \<or> (k, b) = (?k, ?c)"
        using set_update_subset [of ?k ?c d] by blast
      then show ?thesis
      proof
        assume "(k, b) \<in> set d"
        then show ?thesis by simp
      next
        assume e: "(k, b) = (?k, ?c)"
        have "h1 ! ?c = ?new" unfolding h1 by (simp add: nth_append)
        moreover have "?c < length h1" unfolding h1 by simp
        ultimately show ?thesis using e True by auto
      qed
    next
      assume "\<exists>a\<in>set as. k = pfx (name (h0 ! a)) \<and>
       (if is_assoc (h0 ! a)
        then length (h0 @ (ext @ [?new])) \<le> b \<and> b < length h1 \<and> h1 ! b = prefixed pfx h0 a
        else b = a)"
      then obtain a' where "a' \<in> set as" and "k = pfx (name (h0 ! a'))"
        and "if is_assoc (h0 ! a')
        then length (h0 @ (ext @ [?new])) \<le> b \<and> b < length h1 \<and> h1 ! b = prefixed pfx h0 a'
        else b = a'" by blast
      then have "a' \<in> set (a # as) \<and> k = pfx (name (h0 ! a')) \<and>
        (if is_assoc (h0 ! a')
        then length (h0 @ ext) \<le> b \<and> b < length h1 \<and> h1 ! b = prefixed pfx h0 a'
        else b = a')" by (auto split: if_splits)
      then show ?thesis by blast
    qed
  qed
qed

subsection \<open>The outer loop, the comprehensions and the binding loop\<close>

lemma flatten_specs_inv:
  assumes "list_all (wf_spec h0) specs" and "valid (h0 @ ext) d"
  shows "\<exists>ext' d1. flatten_specs specs (h0 @ ext) d = Inr (h0 @ ext @ ext', d1)
           \<and> valid (h0 @ ext @ ext') d1
           \<and> map_of (objects (h0 @ ext @ ext') d1) =
               map_of (objects (h0 @ ext) d) ++ map_of (rev (concat (map (declared_spec h0) specs)))
           \<and> fst ` set d1 = fst ` set d \<union> fst ` set (concat (map (declared_spec h0) specs))
           \<and> (distinct (map fst d) \<longrightarrow> distinct (map fst d1))"
  using assms
proof (induction specs arbitrary: ext d)
  case Nil
  have "flatten_specs [] (h0 @ ext) d = Inr (h0 @ ext @ [], d)" by simp
  moreover have "valid (h0 @ ext @ []) d" using Nil by simp
  ultimately show ?case by (intro exI [of _ "[]"] exI [of _ d]) simp
next
  case (Cons s specs)
  from Cons.prems(1) have ws: "wf_spec h0 s" and rest: "list_all (wf_spec h0) specs"
    by simp_all
  show ?case
  proof (cases "default_bids_inputs s")
    case None
    have step: "flatten_specs (s # specs) (h0 @ ext) d = flatten_specs specs (h0 @ ext) d"
      using None by simp
    have ds: "declared_spec h0 s = []" using None by (simp add: declared_spec_def)
    from Cons.IH [OF rest Cons.prems(2)] show ?thesis
      unfolding step by (simp add: ds)
  next
    case (Some as)
    from ws Some have was: "list_all (wf_ref h0) as" by (simp add: wf_spec_def)
    have ds: "declared_spec h0 s = declared_inputs (apply_prefix s) h0 as"
      using Some by (simp add: declared_spec_def)
    from flatten_spec_inv [OF was Cons.prems(2), of "apply_prefix s"] obtain e1 d1 where
      r1: "flatten_spec (apply_prefix s) as (h0 @ ext) d = Inr (h0 @ ext @ e1, d1)"
      and v1: "valid (h0 @ ext @ e1) d1"
      and m1: "map_of (objects (h0 @ ext @ e1) d1) =
                map_of (objects (h0 @ ext) d) ++ map_of (rev (declared_spec h0 s))"
      and k1: "fst ` set d1 = fst ` set d \<union> fst ` set (declared_spec h0 s)"
      and di1: "distinct (map fst d) \<longrightarrow> distinct (map fst d1)"
      unfolding ds by blast
    have step: "flatten_specs (s # specs) (h0 @ ext) d = flatten_specs specs (h0 @ (ext @ e1)) d1"
      using Some r1 by simp
    have v1': "valid (h0 @ (ext @ e1)) d1" using v1 by simp
    from Cons.IH [OF rest v1'] obtain e2 d2 where
      r2: "flatten_specs specs (h0 @ (ext @ e1)) d1 = Inr (h0 @ (ext @ e1) @ e2, d2)"
      and v2: "valid (h0 @ (ext @ e1) @ e2) d2"
      and m2: "map_of (objects (h0 @ (ext @ e1) @ e2) d2) =
                map_of (objects (h0 @ (ext @ e1)) d1) ++
                map_of (rev (concat (map (declared_spec h0) specs)))"
      and k2: "fst ` set d2 = fst ` set d1 \<union> fst ` set (concat (map (declared_spec h0) specs))"
      and di2: "distinct (map fst d1) \<longrightarrow> distinct (map fst d2)"
      by blast
    have r: "flatten_specs (s # specs) (h0 @ ext) d = Inr (h0 @ ext @ (e1 @ e2), d2)"
      unfolding step using r2 by simp
    have v: "valid (h0 @ ext @ (e1 @ e2)) d2" using v2 by simp
    have m: "map_of (objects (h0 @ ext @ (e1 @ e2)) d2) =
               map_of (objects (h0 @ ext) d) ++
               map_of (rev (concat (map (declared_spec h0) (s # specs))))"
      using m2 m1 by simp
    have k: "fst ` set d2 = fst ` set d \<union> fst ` set (concat (map (declared_spec h0) (s # specs)))"
      unfolding k2 k1 by auto
    have di: "distinct (map fst d) \<longrightarrow> distinct (map fst d2)" using di1 di2 by blast
    show ?thesis using r v m k di by blast
  qed
qed

lemma flatten_specs_extends:
  assumes "list_all (wf_spec h0) specs" and "valid (h0 @ ext) d"
    and "flatten_specs specs (h0 @ ext) d = Inr (h1, d1)"
  shows "\<exists>ext'. h1 = h0 @ ext @ ext'"
  using flatten_specs_inv [OF assms(1,2)] assms(3) by auto

lemma flatten_specs_origin:
  assumes "list_all (wf_spec h0) specs" and "valid (h0 @ ext) d"
    and "flatten_specs specs (h0 @ ext) d = Inr (h1, d1)" and "(k, b) \<in> set d1"
  shows "(k, b) \<in> set d \<or>
    (\<exists>s\<in>set specs. \<exists>as. default_bids_inputs s = Some as \<and>
      (\<exists>a\<in>set as. k = apply_prefix s (name (h0 ! a)) \<and>
       (if is_assoc (h0 ! a)
        then length (h0 @ ext) \<le> b \<and> b < length h1 \<and> h1 ! b = prefixed (apply_prefix s) h0 a
        else b = a)))"
  using assms
proof (induction specs arbitrary: ext d)
  case Nil
  then show ?case by simp
next
  case (Cons s specs)
  from Cons.prems(1) have ws: "wf_spec h0 s" and rest: "list_all (wf_spec h0) specs"
    by simp_all
  show ?case
  proof (cases "default_bids_inputs s")
    case None
    have step: "flatten_specs (s # specs) (h0 @ ext) d = flatten_specs specs (h0 @ ext) d"
      using None by simp
    have r: "flatten_specs specs (h0 @ ext) d = Inr (h1, d1)"
      using Cons.prems(3) unfolding step .
    from Cons.IH [OF rest Cons.prems(2) r Cons.prems(4)] show ?thesis
    proof
      assume "(k, b) \<in> set d"
      then show ?thesis by simp
    next
      assume "\<exists>s\<in>set specs. \<exists>as. default_bids_inputs s = Some as \<and>
        (\<exists>a\<in>set as. k = apply_prefix s (name (h0 ! a)) \<and>
         (if is_assoc (h0 ! a)
          then length (h0 @ ext) \<le> b \<and> b < length h1 \<and>
               h1 ! b = prefixed (apply_prefix s) h0 a
          else b = a))"
      then obtain s' as' a' where "s' \<in> set specs" and "default_bids_inputs s' = Some as'"
        and "a' \<in> set as'" and "k = apply_prefix s' (name (h0 ! a'))"
        and "if is_assoc (h0 ! a')
          then length (h0 @ ext) \<le> b \<and> b < length h1 \<and>
               h1 ! b = prefixed (apply_prefix s') h0 a'
          else b = a'" by blast
      then have "s' \<in> set (s # specs) \<and> default_bids_inputs s' = Some as' \<and>
        a' \<in> set as' \<and> k = apply_prefix s' (name (h0 ! a')) \<and>
        (if is_assoc (h0 ! a')
          then length (h0 @ ext) \<le> b \<and> b < length h1 \<and>
               h1 ! b = prefixed (apply_prefix s') h0 a'
          else b = a')" by simp
      then show ?thesis by blast
    qed
  next
    case (Some as)
    from ws Some have was: "list_all (wf_ref h0) as" by (simp add: wf_spec_def)
    from flatten_spec_inv [OF was Cons.prems(2), of "apply_prefix s"] obtain e1 dm where
      r1: "flatten_spec (apply_prefix s) as (h0 @ ext) d = Inr (h0 @ ext @ e1, dm)"
      and v1: "valid (h0 @ ext @ e1) dm"
      by blast
    have step: "flatten_specs (s # specs) (h0 @ ext) d = flatten_specs specs (h0 @ (ext @ e1)) dm"
      using Some r1 by simp
    have r: "flatten_specs specs (h0 @ (ext @ e1)) dm = Inr (h1, d1)"
      using Cons.prems(3) unfolding step .
    have v1': "valid (h0 @ (ext @ e1)) dm" using v1 by simp
    from flatten_specs_extends [OF rest v1' r] obtain e2 where
      h1: "h1 = h0 @ (ext @ e1) @ e2" by auto
    from Cons.IH [OF rest v1' r Cons.prems(4)]
    show ?thesis
    proof
      assume "(k, b) \<in> set dm"
      from flatten_spec_origin [OF was Cons.prems(2) r1 this]
      show ?thesis
      proof
        assume "(k, b) \<in> set d"
        then show ?thesis by simp
      next
        assume "\<exists>a\<in>set as. k = apply_prefix s (name (h0 ! a)) \<and>
          (if is_assoc (h0 ! a)
           then length (h0 @ ext) \<le> b \<and> b < length (h0 @ ext @ e1) \<and>
                (h0 @ ext @ e1) ! b = prefixed (apply_prefix s) h0 a
           else b = a)"
        then obtain a where a: "a \<in> set as" and ka: "k = apply_prefix s (name (h0 ! a))"
          and c: "if is_assoc (h0 ! a)
           then length (h0 @ ext) \<le> b \<and> b < length (h0 @ ext @ e1) \<and>
                (h0 @ ext @ e1) ! b = prefixed (apply_prefix s) h0 a
           else b = a" by blast
        have "if is_assoc (h0 ! a)
           then length (h0 @ ext) \<le> b \<and> b < length h1 \<and>
                h1 ! b = prefixed (apply_prefix s) h0 a
           else b = a"
        proof (cases "is_assoc (h0 ! a)")
          case False
          then show ?thesis using c by simp
        next
          case True
          with c have b1: "length (h0 @ ext) \<le> b" and b2: "b < length (h0 @ ext @ e1)"
            and b3: "(h0 @ ext @ e1) ! b = prefixed (apply_prefix s) h0 a" by simp_all
          have "h1 ! b = (h0 @ ext @ e1) ! b"
            unfolding h1 using b2 nth_append [of "h0 @ ext @ e1" e2 b] by simp
          moreover have "b < length h1" unfolding h1 using b2 by simp
          ultimately show ?thesis using True b1 b3 by simp
        qed
        then show ?thesis using a ka Some by auto
      qed
    next
      assume "\<exists>s\<in>set specs. \<exists>as. default_bids_inputs s = Some as \<and>
        (\<exists>a\<in>set as. k = apply_prefix s (name (h0 ! a)) \<and>
         (if is_assoc (h0 ! a)
          then length (h0 @ (ext @ e1)) \<le> b \<and> b < length h1 \<and>
               h1 ! b = prefixed (apply_prefix s) h0 a
          else b = a))"
      then obtain s' as' a' where "s' \<in> set specs" and "default_bids_inputs s' = Some as'"
        and "a' \<in> set as'" and "k = apply_prefix s' (name (h0 ! a'))"
        and "if is_assoc (h0 ! a')
          then length (h0 @ (ext @ e1)) \<le> b \<and> b < length h1 \<and>
               h1 ! b = prefixed (apply_prefix s') h0 a'
          else b = a'" by blast
      then have "s' \<in> set (s # specs) \<and> default_bids_inputs s' = Some as' \<and>
        a' \<in> set as' \<and> k = apply_prefix s' (name (h0 ! a')) \<and>
        (if is_assoc (h0 ! a')
          then length (h0 @ ext) \<le> b \<and> b < length h1 \<and>
               h1 ! b = prefixed (apply_prefix s') h0 a'
          else b = a')" by (auto split: if_splits)
      then show ?thesis by blast
    qed
  qed
qed

lemma name_dict_eq:
  "list_all (\<lambda>a. a < length h) as \<Longrightarrow>
   name_dict as h d = Inr (dict_update d (map (\<lambda>a. (name (h ! a), a)) as))"
  by (induction as arbitrary: d) (simp_all add: dict_update_def deref_def)

lemma spec_name_dict_eq:
  "list_all (\<lambda>a. a < length h) as \<Longrightarrow>
   spec_name_dict as h d = Inr (dict_update d (map (\<lambda>a. (spec_name (h ! a), a)) as))"
  by (induction as arbitrary: d) (simp_all add: dict_update_def deref_def)

lemma valid_dict_update:
  "valid h d \<Longrightarrow> valid h kvs \<Longrightarrow> valid h (dict_update d kvs)"
proof (induction kvs arbitrary: d)
  case Nil
  then show ?case by (simp add: dict_update_def)
next
  case (Cons kv kvs)
  obtain k v where kv: "kv = (k, v)" by (cases kv)
  have e: "dict_update d (kv # kvs) = dict_update (AList.update k v d) kvs"
    by (simp add: dict_update_def kv)
  from Cons.prems(2) have "v < length h" and "valid h kvs" by (simp_all add: valid_def kv)
  then show ?case unfolding e using Cons.IH Cons.prems(1) by (simp add: valid_update)
qed

lemma bind_inputs_eq:
  assumes "valid h defs" and "distinct (map fst defs)"
    and "fst ` set defs \<inter> fst ` set inputs = {}"
  shows "bind_inputs t r defs h inputs =
    Inr (h @ map (\<lambda>kb. bound_copy t r (h ! snd kb)) defs,
         inputs @ zip (map fst defs) [length h ..< length h + length defs])"
  using assms
proof (induction defs arbitrary: h inputs)
  case Nil
  then show ?case by simp
next
  case (Cons kb defs)
  obtain k b where kb: "kb = (k, b)" by (cases kb)
  from Cons.prems(1) have b: "b < length h" and v: "valid h defs"
    by (simp_all add: valid_def kb)
  let ?new = "bound_copy t r (h ! b)"
  have cell: "(h @ [h ! b])[length h := x] = h @ [x]" for x by simp
  have step: "bind_inputs t r (kb # defs) h inputs =
      bind_inputs t r defs (h @ [?new]) (AList.update k (length h) inputs)"
    using b by (simp add: kb copy_valid Let_def bound_copy_def cell)
  have fresh: "k \<notin> fst ` set inputs" using Cons.prems(3) by (auto simp: kb)
  have upd: "AList.update k (length h) inputs = inputs @ [(k, length h)]"
    using fresh by (rule update_fresh)
  have v': "valid (h @ [?new]) defs" using v by (rule valid_append)
  have d': "distinct (map fst defs)" using Cons.prems(2) by simp
  have dis: "fst ` set defs \<inter> fst ` set (inputs @ [(k, length h)]) = {}"
    using Cons.prems(2,3) by (auto simp: kb)
  have same: "map (\<lambda>kb. bound_copy t r ((h @ [?new]) ! snd kb)) defs =
      map (\<lambda>kb. bound_copy t r (h ! snd kb)) defs"
    using v by (induction defs) (auto simp: valid_def nth_append)
  have upt: "[length h ..< length h + length (kb # defs)] =
      length h # [length (h @ [?new]) ..< length (h @ [?new]) + length defs]"
    by (subst upt_rec) simp
  show ?case
    unfolding step upd Cons.IH [OF v' d' dis] same upt by (simp add: kb)
qed

lemma objects_new_cells:
  "objects (h @ map g defs) (zip (map fst defs) [length h ..< length h + length defs]) =
   map (\<lambda>kb. (fst kb, g kb)) defs"
  by (rule nth_equalityI) (simp_all add: objects_def nth_append)

subsection \<open>The result of \<open>get_bids_inputs\<close>\<close>

lemma map_of_rev_objects:
  fixes h :: heap and f :: "addr \<Rightarrow> string"
  shows "map_of (rev (map (\<lambda>a. (f a, h ! a)) as)) k =
   map_option ((!) h) (map_of (rev (map (\<lambda>a. (f a, a)) as)) k)"
proof -
  have "rev (map (\<lambda>a. (f a, h ! a)) as) = objects h (rev (map (\<lambda>a. (f a, a)) as))"
    by (simp add: objects_def rev_map comp_def)
  then show ?thesis by (simp add: map_of_objects)
qed

lemma valid_name_pairs:
  "list_all (\<lambda>a. a < length h) as \<Longrightarrow> valid h (map (\<lambda>a. (f a, a)) as)"
  by (induction as) (simp_all add: valid_def)

lemma default_inputs_ok:
  assumes "wf_cls h cls"
  shows "\<exists>ext defs. default_inputs h cls = Inr (h @ ext, defs)
           \<and> valid (h @ ext) defs \<and> distinct (map fst defs)
           \<and> map_of (objects (h @ ext) defs) = map_of (rev (declared h cls))
           \<and> fst ` set defs = fst ` set (declared h cls)"
proof (cases cls)
  case (Analysis opt)
  show ?thesis
  proof (cases opt)
    case None
    have "default_inputs h cls = Inr (h @ [], [])"
      by (simp add: default_inputs_def Analysis None)
    moreover have "declared h cls = []" by (simp add: declared_def Analysis None)
    ultimately show ?thesis
      by (intro exI [of _ "[]"]) (simp add: valid_def objects_def)
  next
    case (Some as)
    let ?kvs = "map (\<lambda>a. (name (h ! a), a)) as"
    let ?d = "dict_update [] ?kvs"
    from assms have w: "list_all (\<lambda>a. a < length h) as"
      by (simp add: wf_cls_def Analysis Some)
    have r: "default_inputs h cls = Inr (h @ [], ?d)"
      by (simp add: default_inputs_def Analysis Some name_dict_eq [OF w])
    have v: "valid (h @ []) ?d"
      using valid_dict_update [of h "[]" ?kvs] valid_name_pairs [OF w]
      by (simp add: valid_def)
    have di: "distinct (map fst ?d)" by (rule distinct_dict_update) simp
    have dec: "declared h cls = map (\<lambda>a. (name (h ! a), h ! a)) as"
      by (simp add: declared_def Analysis Some)
    have m: "map_of (objects (h @ []) ?d) = map_of (rev (declared h cls))"
      by (rule ext) (simp add: dec map_of_objects map_of_dict_update map_of_rev_objects)
    have k: "fst ` set ?d = fst ` set (declared h cls)"
      by (simp add: keys_dict_update dec image_image)
    show ?thesis using r v di m k by blast
  qed
next
  case (MultiAnalysis specs)
  from assms have w: "list_all (wf_spec h) specs" by (simp add: wf_cls_def MultiAnalysis)
  have v: "valid (h @ []) []" by (simp add: valid_def)
  from flatten_specs_inv [OF w v] obtain e d1 where
    r: "flatten_specs specs (h @ []) [] = Inr (h @ [] @ e, d1)"
    and v1: "valid (h @ [] @ e) d1"
    and m: "map_of (objects (h @ [] @ e) d1) =
        map_of (objects (h @ []) []) ++ map_of (rev (concat (map (declared_spec h) specs)))"
    and k: "fst ` set d1 =
        fst ` set ([] :: dict) \<union> fst ` set (concat (map (declared_spec h) specs))"
    and di: "distinct (map fst ([] :: dict)) \<longrightarrow> distinct (map fst d1)"
    by blast
  have dec: "declared h cls = concat (map (declared_spec h) specs)"
    by (simp add: declared_def MultiAnalysis)
  have r': "default_inputs h cls = Inr (h @ e, d1)"
    using r by (simp add: default_inputs_def MultiAnalysis)
  have v': "valid (h @ e) d1" using v1 by simp
  have di': "distinct (map fst d1)" using di by simp
  have m': "map_of (objects (h @ e) d1) = map_of (rev (declared h cls))"
    using m unfolding dec by (simp add: objects_def)
  have k': "fst ` set d1 = fst ` set (declared h cls)"
    using k unfolding dec by simp
  show ?thesis using r' v' di' m' k' by blast
qed

lemma get_bids_inputs_eq:
  assumes "default_inputs h cls = Inr (h1, defs)" and "valid h1 defs"
    and "distinct (map fst defs)"
  shows "get_bids_inputs h cls t r =
    Inr (h1 @ map (\<lambda>kb. bound_copy t r (h1 ! snd kb)) defs,
         zip (map fst defs) [length h1 ..< length h1 + length defs])"
  using bind_inputs_eq [OF assms(2,3), of "[]" t r] assms(1)
  by (simp add: get_bids_inputs_def)

lemma get_bids_inputs_ok:
  assumes "wf_cls h cls"
  shows "\<exists>h' d. get_bids_inputs h cls t r = Inr (h', d)
    \<and> take (length h) h' = h \<and> length h \<le> length h'
    \<and> distinct (map fst d) \<and> distinct (map snd d)
    \<and> (\<forall>c\<in>snd ` set d. length h \<le> c \<and> c < length h')
    \<and> fst ` set d = fst ` set (declared h cls)
    \<and> map_of (objects h' d) = map_option (bound_copy t r) \<circ> map_of (rev (declared h cls))"
proof -
  from default_inputs_ok [OF assms] obtain ext defs where
    r: "default_inputs h cls = Inr (h @ ext, defs)"
    and v: "valid (h @ ext) defs" and di: "distinct (map fst defs)"
    and m: "map_of (objects (h @ ext) defs) = map_of (rev (declared h cls))"
    and k: "fst ` set defs = fst ` set (declared h cls)"
    by blast
  let ?h1 = "h @ ext"
  let ?news = "map (\<lambda>kb. bound_copy t r (?h1 ! snd kb)) defs"
  let ?d = "zip (map fst defs) [length ?h1 ..< length ?h1 + length defs]"
  have g: "get_bids_inputs h cls t r = Inr (?h1 @ ?news, ?d)"
    by (rule get_bids_inputs_eq [OF r v di])
  have tk: "take (length h) (?h1 @ ?news) = h" by simp
  have le: "length h \<le> length (?h1 @ ?news)" by simp
  have k1: "map fst ?d = map fst defs" by simp
  have s1: "map snd ?d = [length ?h1 ..< length ?h1 + length defs]" by simp
  have dk: "distinct (map fst ?d)" unfolding k1 by (rule di)
  have ds: "distinct (map snd ?d)" unfolding s1 by simp
  have s2: "snd ` set ?d = set [length ?h1 ..< length ?h1 + length defs]"
    using s1 by (metis list.set_map)
  have fr: "\<forall>c\<in>snd ` set ?d. length h \<le> c \<and> c < length (?h1 @ ?news)"
    unfolding s2 by simp
  have ks: "fst ` set ?d = fst ` set (declared h cls)"
    using k k1 by (metis list.set_map)
  have o: "objects (?h1 @ ?news) ?d = map (\<lambda>kb. (fst kb, bound_copy t r (?h1 ! snd kb))) defs"
    by (rule objects_new_cells)
  have o2: "map (\<lambda>kb. (fst kb, bound_copy t r (?h1 ! snd kb))) defs =
      map (\<lambda>(k, v). (k, bound_copy t r v)) (objects ?h1 defs)"
    by (simp add: objects_def case_prod_beta)
  have mo: "map_of (objects (?h1 @ ?news) ?d) =
      map_option (bound_copy t r) \<circ> map_of (rev (declared h cls))"
    unfolding o o2 map_of_map m ..
  show ?thesis
    using g tk le dk ds fr ks mo by (intro exI [of _ "?h1 @ ?news"] exI [of _ ?d] conjI)
qed

subsection \<open>Classes without declared defaults\<close>

lemma flatten_specs_filter:
  "flatten_specs (filter (\<lambda>s. default_bids_inputs s \<noteq> None) specs) h d = flatten_specs specs h d"
proof (induction specs arbitrary: h d)
  case Nil
  show ?case by simp
next
  case (Cons s specs)
  show ?case
  proof (cases "default_bids_inputs s")
    case None
    then show ?thesis using Cons.IH by simp
  next
    case (Some as)
    then show ?thesis using Cons.IH by (simp split: sum.splits prod.splits)
  qed
qed

lemma flatten_specs_no_defaults:
  "list_all (\<lambda>s. default_bids_inputs s = None) specs \<Longrightarrow> flatten_specs specs h d = Inr (h, d)"
  by (induction specs) simp_all

text \<open>
  C7. A class without the attribute \<open>default_bids_inputs\<close> yields the empty mapping and
  no error, for every task and repository; so does a composite class all of whose
  sub-analysis classes lack the attribute; and in general the sub-analyses lacking the
  attribute contribute nothing: the result is that of the composite class without them.
\<close>

theorem no_declared_defaults:
  "get_bids_inputs h (Analysis None) t r = Inr (h, [])
   \<and> (list_all (\<lambda>s. default_bids_inputs s = None) specs \<longrightarrow>
        get_bids_inputs h (MultiAnalysis specs) t r = Inr (h, []))
   \<and> get_bids_inputs h (MultiAnalysis specs) t r =
       get_bids_inputs h (MultiAnalysis (filter (\<lambda>s. default_bids_inputs s \<noteq> None) specs)) t r"
proof -
  have "get_bids_inputs h (Analysis None) t r = Inr (h, [])"
    by (simp add: get_bids_inputs_def default_inputs_def)
  moreover have "list_all (\<lambda>s. default_bids_inputs s = None) specs \<longrightarrow>
      get_bids_inputs h (MultiAnalysis specs) t r = Inr (h, [])"
    by (simp add: get_bids_inputs_def default_inputs_def flatten_specs_no_defaults)
  moreover have "get_bids_inputs h (MultiAnalysis specs) t r =
      get_bids_inputs h (MultiAnalysis (filter (\<lambda>s. default_bids_inputs s \<noteq> None) specs)) t r"
    using flatten_specs_filter [of specs h "[]"]
    by (simp add: get_bids_inputs_def default_inputs_def)
  ultimately show ?thesis by blast
qed

theorem no_declared_defaults_witness:
  "get_bids_inputs [] (Analysis None) (Some ''rest'') (Some 1) = Inr ([], [])
   \<and> get_bids_inputs []
        (MultiAnalysis [\<lparr>default_bids_inputs = None, apply_prefix = (\<lambda>n. ''a_'' @ n)\<rparr>])
        (Some ''rest'') (Some 1) = Inr ([], [])"
  using no_declared_defaults [of "[]" "Some ''rest''" "Some 1"
      "[\<lparr>default_bids_inputs = None, apply_prefix = (\<lambda>n. ''a_'' @ n)\<rparr>]"]
  by simp

subsection \<open>Datasets that are not of BIDS type\<close>

text \<open>
  C2. When the dataset's type is not \<open>'bids'\<close> the constructor passes on the explicit
  inputs, normalised to a mapping, and nothing else: a mapping is passed on as it is,
  \<open>None\<close> as the empty mapping, the store is untouched, and the result is the same for
  every analysis class, whatever defaults it declares.
\<close>

theorem non_bids_bypass:
  assumes "dataset_type ds \<noteq> ''bids''"
  shows "BidsMixin_init h cls ds inputs task_arg =
           (case normalise_inputs h inputs of
              Inl e \<Rightarrow> Inl e
            | Inr explicit \<Rightarrow>
               Inr \<lparr>heap_of = h, base_inputs = explicit, bids_task = task_arg\<rparr>)
         \<and> BidsMixin_init h cls ds (DictInputs d) task_arg =
             Inr \<lparr>heap_of = h, base_inputs = d, bids_task = task_arg\<rparr>
         \<and> BidsMixin_init h cls ds NoInputs task_arg =
             Inr \<lparr>heap_of = h, base_inputs = [], bids_task = task_arg\<rparr>
         \<and> BidsMixin_init h cls ds inputs task_arg =
             BidsMixin_init h cls' ds inputs task_arg"
  using assms by (simp add: BidsMixin_init_def normalise_inputs_def split: sum.splits)

theorem non_bids_bypass_witness:
  "BidsMixin_init [ex_mag, ex_filter] (Analysis (Some [0]))
      \<lparr>dataset_type = ''basic'', dataset_handle = 3\<rparr> (DictInputs [(''mag'', 1)]) None =
     Inr \<lparr>heap_of = [ex_mag, ex_filter], base_inputs = [(''mag'', 1)], bids_task = None\<rparr>"
  using non_bids_bypass [of "\<lparr>dataset_type = ''basic'', dataset_handle = 3\<rparr>"
      "[ex_mag, ex_filter]" "Analysis (Some [0])"
      "DictInputs [(''mag'', 1)]" None "[(''mag'', 1)]" "Analysis None"]
  by (simp add: normalise_inputs_def)

subsection \<open>Task binding, duplicate keys and the repository reference\<close>



lemma object_of_entry:
  fixes h' :: heap and d :: dict
  assumes "map_of (objects h' d) = map_option f \<circ> m" and "distinct (map fst d)"
    and "(k, c) \<in> set d"
  shows "\<exists>ob. m k = Some ob \<and> h' ! c = f ob"
proof -
  have "map_of d k = Some c" using assms(2,3) by simp
  then have "map_of (objects h' d) k = Some (h' ! c)" by (simp add: map_of_objects)
  then have "map_option f (m k) = Some (h' ! c)" using assms(1) by simp
  then show ?thesis by auto
qed


lemma repository_bound_copy: "repository (bound_copy t r ob) = r"
  by (simp add: bound_copy_def)







text \<open>
  C10. On a dataset of type \<open>'bids'\<close> the constructor calls \<open>get_bids_inputs\<close> with the
  repository argument \<open>None\<close>: every default input entering the merge has its
  repository reference unset, and in particular it is not bound to the dataset the
  constructor was given.
\<close>

theorem constructor_leaves_repository_unset:
  assumes "wf_cls h cls" and "normalise_inputs h inputs = Inr explicit"
    and "dataset_type ds = ''bids''"
  shows "\<exists>h1 defaults. get_bids_inputs h cls task_arg None = Inr (h1, defaults)
    \<and> BidsMixin_init h cls ds inputs task_arg =
        Inr \<lparr>heap_of = h1, base_inputs = dict_update defaults explicit, bids_task = task_arg\<rparr>
    \<and> (\<forall>c\<in>snd ` set defaults. c < length h1 \<and> repository (h1 ! c) = None
          \<and> repository (h1 ! c) \<noteq> Some (dataset_handle ds))"
proof -
  from get_bids_inputs_ok [OF assms(1), of task_arg None] obtain h1 d where
    g: "get_bids_inputs h cls task_arg None = Inr (h1, d)"
    and dk: "distinct (map fst d)"
    and fr: "\<forall>c\<in>snd ` set d. length h \<le> c \<and> c < length h1"
    and mo: "map_of (objects h1 d) =
      map_option (bound_copy task_arg None) \<circ> map_of (rev (declared h cls))"
    by blast
  have i: "BidsMixin_init h cls ds inputs task_arg =
        Inr \<lparr>heap_of = h1, base_inputs = dict_update d explicit, bids_task = task_arg\<rparr>"
    using assms(2,3) g by (simp add: BidsMixin_init_def)
  have rp: "c < length h1 \<and> repository (h1 ! c) = None
          \<and> repository (h1 ! c) \<noteq> Some (dataset_handle ds)" if "c \<in> snd ` set d" for c
  proof -
    from that obtain k where "(k, c) \<in> set d" by force
    from object_of_entry [OF mo dk this] obtain ob where
      "h1 ! c = bound_copy task_arg None ob" by blast
    then have "repository (h1 ! c) = None" by (simp add: repository_bound_copy)
    moreover from fr that have "c < length h1" by blast
    ultimately show ?thesis by simp
  qed
  have al: "\<forall>c\<in>snd ` set d. c < length h1 \<and> repository (h1 ! c) = None
          \<and> repository (h1 ! c) \<noteq> Some (dataset_handle ds)"
    using rp by (intro ballI)
  show ?thesis
    using g i al by (intro exI [of _ h1] exI [of _ d] conjI)
qed

theorem constructor_leaves_repository_unset_witness:
  "wf_cls [ex_mag, ex_bold] (Analysis (Some [0, 1]))
   \<and> BidsMixin_init [ex_mag, ex_bold] (Analysis (Some [0, 1]))
       \<lparr>dataset_type = ''bids'', dataset_handle = 3\<rparr> NoInputs (Some ''rest'') =
      Inr \<lparr>heap_of = [ex_mag, ex_bold, ex_mag\<lparr>task := Some ''rest''\<rparr>, ex_bold],
           base_inputs = [(''mag'', 2), (''bold'', 3)], bids_task = Some ''rest''\<rparr>
   \<and> repository (ex_mag\<lparr>task := Some ''rest''\<rparr>) = None \<and> repository ex_bold = None"
proof -
  have w: "wf_cls [ex_mag, ex_bold] (Analysis (Some [0, 1]))"
    by (simp add: wf_cls_def)
  have n: "normalise_inputs [ex_mag, ex_bold] NoInputs = Inr []"
    by (simp add: normalise_inputs_def)
  have b: "dataset_type \<lparr>dataset_type = ''bids'', dataset_handle = 3\<rparr> = ''bids''" by simp
  have r: "repository (ex_mag\<lparr>task := Some ''rest''\<rparr>) = None \<and> repository ex_bold = None"
    by (simp add: ex_mag_def ex_bold_def)
  have i: "BidsMixin_init [ex_mag, ex_bold] (Analysis (Some [0, 1]))
       \<lparr>dataset_type = ''bids'', dataset_handle = 3\<rparr> NoInputs (Some ''rest'') =
      Inr \<lparr>heap_of = [ex_mag, ex_bold, ex_mag\<lparr>task := Some ''rest''\<rparr>, ex_bold],
           base_inputs = [(''mag'', 2), (''bold'', 3)], bids_task = Some ''rest''\<rparr>"
    by (simp add: BidsMixin_init_def normalise_inputs_def dict_update_def
        get_bids_inputs_def default_inputs_def deref_def copy_def
        ex_mag_def ex_bold_def Let_def)
  have all: "wf_cls [ex_mag, ex_bold] (Analysis (Some [0, 1]))
   \<and> BidsMixin_init [ex_mag, ex_bold] (Analysis (Some [0, 1]))
       \<lparr>dataset_type = ''bids'', dataset_handle = 3\<rparr> NoInputs (Some ''rest'') =
      Inr \<lparr>heap_of = [ex_mag, ex_bold, ex_mag\<lparr>task := Some ''rest''\<rparr>, ex_bold],
           base_inputs = [(''mag'', 2), (''bold'', 3)], bids_task = Some ''rest''\<rparr>
   \<and> repository (ex_mag\<lparr>task := Some ''rest''\<rparr>) = None \<and> repository ex_bold = None"
    using w i r by (intro conjI) simp_all
  show ?thesis
    using constructor_leaves_repository_unset [OF w n b, of "Some ''rest''"]
    by - (rule all)
qed

subsection \<open>The merge with the explicit inputs\<close>


lemma set_dict_update_subset: "set (dict_update d kvs) \<subseteq> set d \<union> set kvs"
proof (induction kvs arbitrary: d)
  case Nil
  show ?case by (simp add: dict_update_def)
next
  case (Cons kv kvs)
  obtain k v where kv: "kv = (k, v)" by (cases kv)
  have e: "dict_update d (kv # kvs) = dict_update (AList.update k v d) kvs"
    by (simp add: dict_update_def kv)
  show ?case
    unfolding e using Cons.IH [of "AList.update k v d"] set_update_subset [of k v d]
    by (auto simp: kv)
qed

lemma dict_update_fresh:
  "distinct (map fst kvs) \<Longrightarrow> fst ` set d \<inter> fst ` set kvs = {} \<Longrightarrow> dict_update d kvs = d @ kvs"
proof (induction kvs arbitrary: d)
  case Nil
  show ?case by (simp add: dict_update_def)
next
  case (Cons kv kvs)
  obtain k v where kv: "kv = (k, v)" by (cases kv)
  have e: "dict_update d (kv # kvs) = dict_update (AList.update k v d) kvs"
    by (simp add: dict_update_def kv)
  have fresh: "k \<notin> fst ` set d" using Cons.prems(2) by (auto simp: kv)
  have u: "AList.update k v d = d @ [(k, v)]" using fresh by (rule update_fresh)
  have d1: "distinct (map fst kvs)" using Cons.prems(1) by simp
  have d2: "fst ` set (d @ [(k, v)]) \<inter> fst ` set kvs = {}"
    using Cons.prems by (auto simp: kv)
  show ?case unfolding e u Cons.IH [OF d1 d2] by (simp add: kv)
qed



text \<open>
  C8. \<open>inputs = None\<close> is treated as the empty mapping. A list of items is turned into
  a mapping whose keys are the spec names of the items, each entry being an item under
  its own \<open>spec_name\<close> (the last item of a name when several share it); when the spec
  names are distinct the mapping lists the items in order. The constructor then behaves
  as if it had been given that mapping.
\<close>

theorem list_inputs_keyed_by_spec_name:
  "normalise_inputs h NoInputs = Inr []
   \<and> (list_all (\<lambda>a. a < length h) items \<longrightarrow>
       (\<exists>d. normalise_inputs h (ListInputs items) = Inr d
          \<and> distinct (map fst d)
          \<and> fst ` set d = (\<lambda>a. spec_name (h ! a)) ` set items
          \<and> (\<forall>(k, a)\<in>set d. a \<in> set items \<and> k = spec_name (h ! a))
          \<and> map_of d = map_of (rev (map (\<lambda>a. (spec_name (h ! a), a)) items))
          \<and> (distinct (map (\<lambda>a. spec_name (h ! a)) items) \<longrightarrow>
               d = map (\<lambda>a. (spec_name (h ! a), a)) items)
          \<and> BidsMixin_init h cls ds (ListInputs items) t =
              BidsMixin_init h cls ds (DictInputs d) t))
   \<and> BidsMixin_init h cls ds NoInputs t = BidsMixin_init h cls ds (DictInputs []) t"
proof -
  let ?kvs = "map (\<lambda>a. (spec_name (h ! a), a)) items"
  let ?d = "dict_update [] ?kvs"
  have n0: "normalise_inputs h NoInputs = Inr []" by (simp add: normalise_inputs_def)
  have i0: "BidsMixin_init h cls ds NoInputs t = BidsMixin_init h cls ds (DictInputs []) t"
    by (simp add: BidsMixin_init_def normalise_inputs_def)
  have l: "\<exists>d. normalise_inputs h (ListInputs items) = Inr d
          \<and> distinct (map fst d)
          \<and> fst ` set d = (\<lambda>a. spec_name (h ! a)) ` set items
          \<and> (\<forall>(k, a)\<in>set d. a \<in> set items \<and> k = spec_name (h ! a))
          \<and> map_of d = map_of (rev (map (\<lambda>a. (spec_name (h ! a), a)) items))
          \<and> (distinct (map (\<lambda>a. spec_name (h ! a)) items) \<longrightarrow>
               d = map (\<lambda>a. (spec_name (h ! a), a)) items)
          \<and> BidsMixin_init h cls ds (ListInputs items) t =
              BidsMixin_init h cls ds (DictInputs d) t"
    if w: "list_all (\<lambda>a. a < length h) items"
  proof -
    have n: "normalise_inputs h (ListInputs items) = Inr ?d"
      by (simp add: normalise_inputs_def spec_name_dict_eq [OF w])
    have di: "distinct (map fst ?d)" by (rule distinct_dict_update) simp
    have k: "fst ` set ?d = (\<lambda>a. spec_name (h ! a)) ` set items"
      by (simp add: keys_dict_update image_image)
    have s: "\<forall>(k, a)\<in>set ?d. a \<in> set items \<and> k = spec_name (h ! a)"
      using set_dict_update_subset [of "[]" ?kvs] by auto
    have m: "map_of ?d = map_of (rev ?kvs)" by (simp add: map_of_dict_update)
    have e: "distinct (map (\<lambda>a. spec_name (h ! a)) items) \<longrightarrow> ?d = ?kvs"
    proof
      assume "distinct (map (\<lambda>a. spec_name (h ! a)) items)"
      then have "distinct (map fst ?kvs)" by (simp add: comp_def)
      then show "?d = ?kvs" using dict_update_fresh [of ?kvs "[]"] by simp
    qed
    have i: "BidsMixin_init h cls ds (ListInputs items) t =
        BidsMixin_init h cls ds (DictInputs ?d) t"
      using n by (simp add: BidsMixin_init_def normalise_inputs_def)
    show ?thesis using n di k s m e i by (intro exI [of _ ?d] conjI)
  qed
  show ?thesis using n0 l i0 by (intro conjI impI)
qed

theorem list_inputs_keyed_by_spec_name_witness:
  "normalise_inputs [ex_mag, ex_bold, ex_filter] (ListInputs [1, 2]) =
     Inr [(''bold'', 1), (''mag'', 2)]
   \<and> spec_name ex_bold = ''bold'' \<and> spec_name ex_filter = ''mag''"
proof -
  have all: "normalise_inputs [ex_mag, ex_bold, ex_filter] (ListInputs [1, 2]) =
     Inr [(''bold'', 1), (''mag'', 2)]
   \<and> spec_name ex_bold = ''bold'' \<and> spec_name ex_filter = ''mag''"
    by (simp add: normalise_inputs_def deref_def ex_filter_def ex_bold_def)
  show ?thesis
    using list_inputs_keyed_by_spec_name [of "[ex_mag, ex_bold, ex_filter]" "[1, 2]"]
    by - (rule all)
qed

subsection \<open>The declared defaults and the task of an associated input\<close>

text \<open>
  On inputs that are not associated inputs the loop with the property is the loop of the
  data model: the two differ only where the task is forwarded to a primary input.
\<close>

lemma bind_inputs_property_plain:
  assumes "list_all (\<lambda>(k, a). a < length h \<longrightarrow> \<not> is_assoc (h ! a)) d"
  shows "bind_inputs_property t r d h inputs = bind_inputs t r d h inputs"
  using assms
proof (induction d arbitrary: h inputs)
  case Nil
  show ?case by simp
next
  case (Cons kb d)
  obtain nm a where kb: "kb = (nm, a)" by (cases kb)
  show ?case
  proof (cases "a < length h")
    case False
    then show ?thesis by (simp add: kb copy_def deref_def)
  next
    case True
    with Cons.prems have na: "\<not> is_assoc (h ! a)" by (simp add: kb)
    let ?c = "length h"
    let ?h1 = "h @ [h ! a]"
    let ?h2 = "if task (h ! a) = None \<and> t \<noteq> None then h @ [(h ! a)\<lparr>task := t\<rparr>] else ?h1"
    let ?h3 = "?h2[?c := (?h2 ! ?c)\<lparr>repository := r\<rparr>]"
    have cp: "copy h a = Inr (?h1, ?c)" using True by (rule copy_valid)
    have gt: "get_task ?h1 ?c = Inr (task (h ! a))"
      using na by (simp add: get_task_def deref_def)
    have st: "set_task ?h1 ?c t = Inr (h @ [(h ! a)\<lparr>task := t\<rparr>])"
      using na by (simp add: set_task_def deref_def)
    have lhs: "bind_inputs_property t r (kb # d) h inputs =
        bind_inputs_property t r d ?h3 (AList.update nm ?c inputs)"
      by (simp add: kb cp gt st Let_def)
    have rhs: "bind_inputs t r (kb # d) h inputs =
        bind_inputs t r d ?h3 (AList.update nm ?c inputs)"
      by (simp add: kb cp Let_def)
    have len: "length ?h3 = Suc (length h)" by simp
    have old: "?h3 ! b = h ! b" if "b < length h" for b
      using that by (simp add: nth_append)
    have new: "\<not> is_assoc (?h3 ! ?c)" using na by simp
    have "list_all (\<lambda>(k, b). b < length ?h3 \<longrightarrow> \<not> is_assoc (?h3 ! b)) d"
      unfolding list_all_iff
    proof (intro ballI)
      fix x assume x: "x \<in> set d"
      obtain k b where xb: "x = (k, b)" by (cases x)
      from Cons.prems x have p: "b < length h \<longrightarrow> \<not> is_assoc (h ! b)"
        by (auto simp: list_all_iff xb)
      have "b < length ?h3 \<longrightarrow> \<not> is_assoc (?h3 ! b)"
      proof
        assume "b < length ?h3"
        then have "b < length h \<or> b = length h" unfolding len by auto
        then show "\<not> is_assoc (?h3 ! b)"
        proof
          assume bl: "b < length h"
          with p old [OF bl] show ?thesis by simp
        next
          assume "b = length h"
          with new show ?thesis by simp
        qed
      qed
      then show "case x of (k, b) \<Rightarrow> b < length ?h3 \<longrightarrow> \<not> is_assoc (?h3 ! b)"
        by (simp add: xb)
    qed
    from Cons.IH [OF this] show ?thesis unfolding lhs rhs .
  qed
qed

text \<open>
  C3. The claim is that no call of \<open>get_bids_inputs\<close> changes an element of the
  \<open>default_bids_inputs\<close> of the class. The code copies every input before it assigns
  to it, but the copy is shallow and the task of an associated input is assigned to its
  primary input, which the copy shares with the declared default. For a class declaring
  the input \<open>mag\<close> (no task filter) and the associated input \<open>grads\<close> whose primary
  input is \<open>mag\<close>, a call with the task \<open>rest\<close> leaves the declared \<open>mag\<close>, the object at
  reference 0, with the task filter \<open>rest\<close>: the declared default is changed. A second
  call, now with the task \<open>nback\<close>, therefore returns a copy of \<open>mag\<close> with the task
  filter \<open>rest\<close> of the first call, not \<open>nback\<close>.
\<close>

theorem shared_primary_task_overwritten:
  "get_bids_inputs_property [ex_mag, ex_grads] (Analysis (Some [0, 1])) (Some ''rest'') None =
     Inr ([ex_mag\<lparr>task := Some ''rest''\<rparr>, ex_grads,
           ex_mag\<lparr>task := Some ''rest''\<rparr>, ex_grads],
          [(''mag'', 2), (''grads'', 3)])
   \<and> task ex_mag = None
   \<and> ex_mag\<lparr>task := Some ''rest''\<rparr> \<noteq> ex_mag
   \<and> get_bids_inputs_property
        [ex_mag\<lparr>task := Some ''rest''\<rparr>, ex_grads,
         ex_mag\<lparr>task := Some ''rest''\<rparr>, ex_grads]
        (Analysis (Some [0, 1])) (Some ''nback'') None =
     Inr ([ex_mag\<lparr>task := Some ''rest''\<rparr>, ex_grads,
           ex_mag\<lparr>task := Some ''rest''\<rparr>, ex_grads,
           ex_mag\<lparr>task := Some ''rest''\<rparr>, ex_grads],
          [(''mag'', 4), (''grads'', 5)])"
proof -
  have first: "get_bids_inputs_property [ex_mag, ex_grads] (Analysis (Some [0, 1]))
      (Some ''rest'') None =
     Inr ([ex_mag\<lparr>task := Some ''rest''\<rparr>, ex_grads,
           ex_mag\<lparr>task := Some ''rest''\<rparr>, ex_grads],
          [(''mag'', 2), (''grads'', 3)])"
    by (simp add: get_bids_inputs_property_def default_inputs_def deref_def copy_def
        get_task_def set_task_def ex_mag_def ex_grads_def Let_def)
  have unset: "task ex_mag = None" by (simp add: ex_mag_def)
  have changed: "ex_mag\<lparr>task := Some ''rest''\<rparr> \<noteq> ex_mag" by (simp add: ex_mag_def)
  have second: "get_bids_inputs_property
        [ex_mag\<lparr>task := Some ''rest''\<rparr>, ex_grads,
         ex_mag\<lparr>task := Some ''rest''\<rparr>, ex_grads]
        (Analysis (Some [0, 1])) (Some ''nback'') None =
     Inr ([ex_mag\<lparr>task := Some ''rest''\<rparr>, ex_grads,
           ex_mag\<lparr>task := Some ''rest''\<rparr>, ex_grads,
           ex_mag\<lparr>task := Some ''rest''\<rparr>, ex_grads],
          [(''mag'', 4), (''grads'', 5)])"
    by (simp add: get_bids_inputs_property_def default_inputs_def deref_def copy_def
        get_task_def set_task_def ex_mag_def ex_grads_def Let_def)
  show ?thesis using first unset changed second by (intro conjI)
qed

subsection \<open>Composite classes\<close>

text \<open>
  C6. For a composite class the first loop of \<open>get_bids_inputs\<close> returns, leaves every
  object that was in the store unchanged, and every entry \<open>(k, b)\<close> of the mapping it
  builds comes from an input \<open>a\<close> declared by a sub-analysis \<open>s\<close>, with \<open>k\<close> the prefixed
  name of \<open>a\<close>: when \<open>a\<close> is an associated input, \<open>b\<close> is a new object, equal to \<open>a\<close>
  but for its \<open>prefixed_primary_name\<close>, which is the prefixing function of \<open>s\<close> applied
  to the bare name of the primary input of \<open>a\<close>; any other input is stored as it is. The
  object stored under a key is the one of the last input declared under it.
\<close>

theorem associated_inputs_copied:
  assumes "wf_cls h (MultiAnalysis specs)"
  shows "\<exists>h1 defs. default_inputs h (MultiAnalysis specs) = Inr (h1, defs)
    \<and> take (length h) h1 = h
    \<and> (\<forall>(k, b)\<in>set defs. \<exists>s\<in>set specs. \<exists>as. default_bids_inputs s = Some as \<and>
          (\<exists>a\<in>set as. k = apply_prefix s (name (h ! a)) \<and>
            (if is_assoc (h ! a)
             then length h \<le> b \<and> b < length h1 \<and>
                  h1 ! b = (h ! a)\<lparr>prefixed_primary_name :=
                                     apply_prefix s (name (h ! primary (h ! a)))\<rparr>
             else b = a)))
    \<and> map_of (objects h1 defs) = map_of (rev (declared h (MultiAnalysis specs)))"
proof -
  from default_inputs_ok [OF assms] obtain ext defs where
    r: "default_inputs h (MultiAnalysis specs) = Inr (h @ ext, defs)"
    and m: "map_of (objects (h @ ext) defs) = map_of (rev (declared h (MultiAnalysis specs)))"
    by blast
  from assms have w: "list_all (wf_spec h) specs" by (simp add: wf_cls_def)
  have v: "valid (h @ []) []" by (simp add: valid_def)
  have fl: "flatten_specs specs (h @ []) [] = Inr (h @ ext, defs)"
    using r by (simp add: default_inputs_def)
  have tk: "take (length h) (h @ ext) = h" by simp
  have "\<exists>s\<in>set specs. \<exists>as. default_bids_inputs s = Some as \<and>
          (\<exists>a\<in>set as. k = apply_prefix s (name (h ! a)) \<and>
            (if is_assoc (h ! a)
             then length h \<le> b \<and> b < length (h @ ext) \<and>
                  (h @ ext) ! b = (h ! a)\<lparr>prefixed_primary_name :=
                                     apply_prefix s (name (h ! primary (h ! a)))\<rparr>
             else b = a))"
    if kb: "(k, b) \<in> set defs" for k b
  proof -
    from flatten_specs_origin [OF w v fl kb]
    obtain s as a where s: "s \<in> set specs" and as: "default_bids_inputs s = Some as"
      and a: "a \<in> set as" and k: "k = apply_prefix s (name (h ! a))"
      and c: "if is_assoc (h ! a)
        then length (h @ []) \<le> b \<and> b < length (h @ ext) \<and>
             (h @ ext) ! b = prefixed (apply_prefix s) h a
        else b = a"
      by auto
    have c': "if is_assoc (h ! a)
             then length h \<le> b \<and> b < length (h @ ext) \<and>
                  (h @ ext) ! b = (h ! a)\<lparr>prefixed_primary_name :=
                                     apply_prefix s (name (h ! primary (h ! a)))\<rparr>
             else b = a"
    proof (cases "is_assoc (h ! a)")
      case True
      then have "prefixed (apply_prefix s) h a =
          (h ! a)\<lparr>prefixed_primary_name := apply_prefix s (name (h ! primary (h ! a)))\<rparr>"
        by (simp add: prefixed_def)
      with c True show ?thesis by simp
    next
      case False
      with c show ?thesis by simp
    qed
    have "\<exists>a\<in>set as. k = apply_prefix s (name (h ! a)) \<and>
            (if is_assoc (h ! a)
             then length h \<le> b \<and> b < length (h @ ext) \<and>
                  (h @ ext) ! b = (h ! a)\<lparr>prefixed_primary_name :=
                                     apply_prefix s (name (h ! primary (h ! a)))\<rparr>
             else b = a)"
      using a k c' by (intro bexI [of _ a] conjI)
    with as have "\<exists>as. default_bids_inputs s = Some as \<and>
          (\<exists>a\<in>set as. k = apply_prefix s (name (h ! a)) \<and>
            (if is_assoc (h ! a)
             then length h \<le> b \<and> b < length (h @ ext) \<and>
                  (h @ ext) ! b = (h ! a)\<lparr>prefixed_primary_name :=
                                     apply_prefix s (name (h ! primary (h ! a)))\<rparr>
             else b = a))"
      by (intro exI [of _ as] conjI)
    with s show ?thesis by (intro bexI [of _ s])
  qed
  then have o: "\<forall>(k, b)\<in>set defs. \<exists>s\<in>set specs. \<exists>as. default_bids_inputs s = Some as \<and>
          (\<exists>a\<in>set as. k = apply_prefix s (name (h ! a)) \<and>
            (if is_assoc (h ! a)
             then length h \<le> b \<and> b < length (h @ ext) \<and>
                  (h @ ext) ! b = (h ! a)\<lparr>prefixed_primary_name :=
                                     apply_prefix s (name (h ! primary (h ! a)))\<rparr>
             else b = a))"
    by (intro ballI) (simp add: split_paired_all)
  show ?thesis
    using r tk o m by (intro exI [of _ "h @ ext"] exI [of _ defs] conjI)
qed

theorem associated_inputs_copied_witness:
  "wf_cls [ex_mag, ex_grads] (MultiAnalysis [sub_a, sub_b])
   \<and> default_inputs [ex_mag, ex_grads] (MultiAnalysis [sub_a, sub_b]) =
       Inr ([ex_mag, ex_grads, ex_grads\<lparr>prefixed_primary_name := ''a_mag''\<rparr>],
            [(''a_mag'', 0), (''a_grads'', 2), (''b_mag'', 0)])
   \<and> is_assoc ex_grads \<and> primary ex_grads = 0 \<and> name ex_mag = ''mag''"
proof -
  have w: "wf_cls [ex_mag, ex_grads] (MultiAnalysis [sub_a, sub_b])"
    by (simp add: wf_cls_def wf_spec_def wf_ref_def sub_a_def sub_b_def ex_mag_def ex_grads_def)
  have d: "default_inputs [ex_mag, ex_grads] (MultiAnalysis [sub_a, sub_b]) =
       Inr ([ex_mag, ex_grads, ex_grads\<lparr>prefixed_primary_name := ''a_mag''\<rparr>],
            [(''a_mag'', 0), (''a_grads'', 2), (''b_mag'', 0)])"
    by (simp add: default_inputs_def deref_def copy_def sub_a_def sub_b_def
        ex_mag_def ex_grads_def Let_def)
  have e: "is_assoc ex_grads \<and> primary ex_grads = 0 \<and> name ex_mag = ''mag''"
    by (simp add: ex_mag_def ex_grads_def)
  have all: "wf_cls [ex_mag, ex_grads] (MultiAnalysis [sub_a, sub_b])
   \<and> default_inputs [ex_mag, ex_grads] (MultiAnalysis [sub_a, sub_b]) =
       Inr ([ex_mag, ex_grads, ex_grads\<lparr>prefixed_primary_name := ''a_mag''\<rparr>],
            [(''a_mag'', 0), (''a_grads'', 2), (''b_mag'', 0)])
   \<and> is_assoc ex_grads \<and> primary ex_grads = 0 \<and> name ex_mag = ''mag''"
    using w d e by (intro conjI) simp_all
  show ?thesis
    using associated_inputs_copied [OF w]
    by - (rule all)
qed








end
